theory Spec2Isabelle
  imports Main "HOL-Library.Product_Lexorder" "HOL-Library.Multiset"
begin

section \<open>Residue-numbering reconciliation and region merging (dataset/utility.py)\<close>

text \<open>
  The Python functions \<^verbatim>\<open>merge_overlapping_tuples\<close>, \<^verbatim>\<open>consolidate_regions\<close>,
  \<^verbatim>\<open>convert_to_str\<close>, \<^verbatim>\<open>change_basis\<close>, \<^verbatim>\<open>change_basis2\<close>,
  \<^verbatim>\<open>add_residue_positions\<close> and \<^verbatim>\<open>ranges\<close> are embedded as HOL functions.
  Python integers are \<^typ>\<open>int\<close>, strings are \<^typ>\<open>string\<close> (taken to be ASCII), lists are
  lists, and every exception the code can raise is a value of \<open>py_error\<close> returned on the
  left of a sum.
\<close>

subsection \<open>Values and errors\<close>

text \<open>
  The scalars found in a position list: a Python int, a Python str, or \<^verbatim>\<open>None\<close> (the
  value for which \<^verbatim>\<open>pd.isna\<close> holds). Floating-point inputs are outside the embedding.
\<close>

datatype pyval = PInt int | PStr string | PNone

datatype py_error = ValueError | IndexError | TypeError | InvalidPosition | ExcessiveResidues

type_synonym region = "int \<times> int"

subsection \<open>Interval merger\<close>

text \<open>\<^verbatim>\<open>list.remove(y)\<close>: deletes the first element equal to \<open>y\<close>, ValueError when there is none.\<close>

definition list_remove :: "'a \<Rightarrow> 'a list \<Rightarrow> py_error + 'a list" where
  "list_remove y L = (if y \<in> set L then Inr (remove1 y L) else Inl ValueError)"

text \<open>
  The inner loop \<^verbatim>\<open>for y in disorder_regions[i+1:]\<close>. It runs over a copy (the slice), so
  the removals from \<open>L\<close> do not change what it visits. The state is the running interval
  \<open>(x1, x2)\<close> and the list \<open>L\<close> being mutated; \<open>x\<close> is the outer loop's element, which the
  first branch reads instead of the running interval, as the source does.
\<close>

fun merge_inner :: "region \<Rightarrow> region list \<Rightarrow> int \<times> int \<times> region list \<Rightarrow> py_error + (int \<times> int \<times> region list)" where
  "merge_inner x [] st = Inr st"
| "merge_inner x (y # ys) (x1, x2, L) =
     (if \<bar>snd y - x1\<bar> = 1 \<or> \<bar>x2 - fst y\<bar> = 1 then
        (case list_remove y L of Inl e \<Rightarrow> Inl e
         | Inr L' \<Rightarrow> merge_inner x ys (min (fst x) (fst y), max (snd x) (snd y), L'))
      else if x1 > snd y \<or> x2 < fst y then merge_inner x ys (x1, x2, L)
      else if x1 \<le> fst y \<and> x2 \<le> snd y then
        (case list_remove y L of Inl e \<Rightarrow> Inl e
         | Inr L' \<Rightarrow> merge_inner x ys (x1, snd y, L'))
      else if x1 \<le> fst y \<and> x2 \<ge> snd y then
        (case list_remove y L of Inl e \<Rightarrow> Inl e
         | Inr L' \<Rightarrow> merge_inner x ys (x1, x2, L'))
      else if x1 \<ge> fst y \<and> x2 \<ge> snd y then
        (case list_remove y L of Inl e \<Rightarrow> Inl e
         | Inr L' \<Rightarrow> merge_inner x ys (fst y, x2, L'))
      else if x1 \<ge> fst y \<and> x2 \<le> snd y then
        (case list_remove y L of Inl e \<Rightarrow> Inl e
         | Inr L' \<Rightarrow> merge_inner x ys (fst y, snd y, L'))
      else merge_inner x ys (x1, x2, L))"

text \<open>The inner loop only removes elements; the outer loop's termination rests on this.\<close>

lemma merge_inner_length:
  "merge_inner x ys (x1, x2, L) = Inr (a, b, L') \<Longrightarrow> length L' \<le> length L"
proof (induction ys arbitrary: x1 x2 L)
  case Nil
  then show ?case by simp
next
  case (Cons y ys)
  have rm: "\<And>M. list_remove y L = Inr M \<Longrightarrow> length M \<le> length L"
    by (auto simp: list_remove_def length_remove1 split: if_splits)
  from Cons.prems show ?case
    by (auto split: if_splits sum.splits dest!: Cons.IH dest: rm)
qed

text \<open>
  The outer loop \<^verbatim>\<open>for i, x in enumerate(disorder_regions)\<close>: the list iterator holds an
  index \<open>k\<close> into the list that the inner loop mutates, stops when \<open>k\<close> reaches the current
  length, and \<^verbatim>\<open>enumerate\<close>'s counter \<open>i\<close> equals \<open>k\<close>.
\<close>

function merge_outer :: "nat \<Rightarrow> region list \<Rightarrow> region list \<Rightarrow> py_error + region list" where
  "merge_outer k L merged =
     (if k < length L then
        (case merge_inner (L ! k) (drop (Suc k) L) (fst (L ! k), snd (L ! k), L) of
           Inl e \<Rightarrow> Inl e
         | Inr (x1, x2, L') \<Rightarrow> merge_outer (Suc k) L' (merged @ [(x1, x2)]))
      else Inr merged)"
  by pat_completeness auto
termination
proof (relation "measure (\<lambda>(k, L, merged). length L - k)", goal_cases)
  case 1
  show ?case by simp
next
  case (2 k L merged r x1 rest x2 L')
  then have "length L' \<le> length L"
    using merge_inner_length by blast
  with 2 show ?case by simp
qed

declare merge_outer.simps [simp del]

definition merge_overlapping_tuples :: "region list \<Rightarrow> py_error + region list" where
  "merge_overlapping_tuples disorder_regions = merge_outer 0 (sort disorder_regions) []"

subsection \<open>Interval extractor\<close>

text \<open>
  \<^verbatim>\<open>ranges\<close> on a list of Python ints, for which \<^verbatim>\<open>map(int, positions)\<close> is the
  identity. \<^verbatim>\<open>sorted(set(positions))\<close> is \<open>sort (remdups positions)\<close>; \<open>gaps\<close> is the list
  comprehension over \<^verbatim>\<open>zip(positions, positions[1:])\<close>; \<open>edges\<close> is
  \<^verbatim>\<open>positions[:1] + sum(gaps, []) + positions[-1:]\<close>; and \<open>pairs\<close> is
  \<^verbatim>\<open>zip(edges, edges)\<close> over one shared iterator, which pairs consecutive elements and
  drops a last unpaired one.
\<close>

fun pairs :: "'a list \<Rightarrow> ('a \<times> 'a) list" where
  "pairs (a # b # rest) = (a, b) # pairs rest"
| "pairs _ = []"

definition gaps :: "int list \<Rightarrow> int list list" where
  "gaps positions = map (\<lambda>(x, y). [x, y]) (filter (\<lambda>(x, y). x + 1 < y) (zip positions (tl positions)))"

definition edges :: "int list \<Rightarrow> int list" where
  "edges positions = take 1 positions @ concat (gaps positions) @ (if positions = [] then [] else [last positions])"

definition ranges :: "int list \<Rightarrow> region list" where
  "ranges positions = pairs (edges (sort (remdups positions)))"

subsection \<open>Python builtins on integers and strings\<close>

text \<open>
  \<open>str_int\<close> is \<^verbatim>\<open>str\<close> on an int (its decimal digits, a minus sign first when negative).
  \<open>int_float n\<close> is \<^verbatim>\<open>int(float(n))\<close> for an int \<open>n\<close>: an int of at most 53 bits is a double
  exactly; a longer one is rounded to 53 significant bits, ties to even; and
  \<^verbatim>\<open>float\<close> raises OverflowError (\<open>None\<close>) when the rounded value reaches \<open>2 ^ 1024\<close>.
  \<open>py_int\<close> is \<^verbatim>\<open>int\<close> on an ASCII string in base 10: surrounding whitespace is dropped,
  one sign is allowed, and single underscores may separate digits; \<open>None\<close> stands for
  ValueError.
\<close>

definition is_digit :: "char \<Rightarrow> bool" where
  "is_digit c = (48 \<le> (of_char c :: int) \<and> (of_char c :: int) \<le> 57)"

definition digit_val :: "char \<Rightarrow> int" where
  "digit_val c = of_char c - 48"

definition digit_char :: "int \<Rightarrow> char" where
  "digit_char d = char_of (48 + d)"

function str_digits :: "int \<Rightarrow> string" where
  "str_digits n = (if n < 10 then [digit_char n] else str_digits (n div 10) @ [digit_char (n mod 10)])"
  by pat_completeness auto
termination
  by (relation "measure nat") auto

declare str_digits.simps [simp del]

definition str_int :: "int \<Rightarrow> string" where
  "str_int i = (if i < 0 then CHR ''-'' # str_digits (- i) else str_digits i)"

function bit_length :: "int \<Rightarrow> nat" where
  "bit_length n = (if n \<le> 0 then 0 else Suc (bit_length (n div 2)))"
  by pat_completeness auto
termination
  by (relation "measure nat") auto

declare bit_length.simps [simp del]

definition int_float :: "int \<Rightarrow> int option" where
  "int_float n =
     (let a = \<bar>n\<bar>; k = bit_length a in
      if k \<le> 53 then Some n
      else
        (let s = k - 53; q = a div 2 ^ s; r = a mod 2 ^ s; h = 2 ^ (s - 1);
             q' = (if r > h \<or> (r = h \<and> odd q) then q + 1 else q);
             v = q' * 2 ^ s
         in if v \<ge> 2 ^ 1024 then None else Some (sgn n * v)))"

definition is_space :: "char \<Rightarrow> bool" where
  "is_space c = ((of_char c :: int) \<in> {9, 10, 11, 12, 13, 28, 29, 30, 31, 32})"

definition strip :: "string \<Rightarrow> string" where
  "strip s = rev (dropWhile is_space (rev (dropWhile is_space s)))"

fun parse_digits :: "int \<Rightarrow> string \<Rightarrow> int option" where
  "parse_digits acc [] = Some acc"
| "parse_digits acc [c] = (if is_digit c then Some (10 * acc + digit_val c) else None)"
| "parse_digits acc (c # d # cs) =
     (if is_digit c then parse_digits (10 * acc + digit_val c) (d # cs)
      else if c = CHR ''_'' \<and> is_digit d then parse_digits (10 * acc + digit_val d) cs
      else None)"

definition parse_nat :: "string \<Rightarrow> int option" where
  "parse_nat s = (case s of [] \<Rightarrow> None
     | c # cs \<Rightarrow> if is_digit c then parse_digits (digit_val c) cs else None)"

definition py_int :: "string \<Rightarrow> int option" where
  "py_int s = (case strip s of [] \<Rightarrow> None
     | c # cs \<Rightarrow>
         if c = CHR ''-'' then map_option uminus (parse_nat cs)
         else if c = CHR ''+'' then parse_nat cs
         else parse_nat (c # cs))"

text \<open>
  \<^verbatim>\<open>int(float(s))\<close> on a string \<open>s\<close> depends on Python's floating-point parser, which is not
  modelled: the normalizer below takes it as a parameter \<open>sf\<close> (\<open>None\<close> when either call
  raises). \<open>int_float_literal\<close> is that function on the strings \<^verbatim>\<open>int\<close> accepts, all of which
  \<^verbatim>\<open>float\<close> accepts with the same value; it instantiates \<open>sf\<close> where a concrete run is
  evaluated.
\<close>

definition int_float_literal :: "string \<Rightarrow> int option" where
  "int_float_literal s = (case py_int s of None \<Rightarrow> None | Some n \<Rightarrow> int_float n)"

subsection \<open>Token normalizer\<close>

text \<open>
  \<^verbatim>\<open>convert_to_str\<close>, one element at a time: the missing marker \<open>add\<close> for \<^verbatim>\<open>None\<close> and
  for the string \<^verbatim>\<open>"null"\<close>; otherwise \<^verbatim>\<open>str(int(float(v)))\<close>, and when that raises, the
  digits of the string. The \<^verbatim>\<open>except\<close> branch iterates over the value, so an int that
  \<^verbatim>\<open>float\<close> rejects raises TypeError there.
\<close>

fun convert_elem :: "(string \<Rightarrow> int option) \<Rightarrow> string \<Rightarrow> pyval \<Rightarrow> py_error + string" where
  "convert_elem sf add PNone = Inr add"
| "convert_elem sf add (PStr s) =
     (if s = ''null'' then Inr add
      else (case sf s of Some n \<Rightarrow> Inr (str_int n) | None \<Rightarrow> Inr (filter is_digit s)))"
| "convert_elem sf add (PInt n) =
     (case int_float n of Some m \<Rightarrow> Inr (str_int m) | None \<Rightarrow> Inl TypeError)"

fun convert_to_str :: "(string \<Rightarrow> int option) \<Rightarrow> string \<Rightarrow> pyval list \<Rightarrow> py_error + string list" where
  "convert_to_str sf add [] = Inr []"
| "convert_to_str sf add (v # plist) =
     (case convert_elem sf add v of Inl e \<Rightarrow> Inl e
      | Inr t \<Rightarrow> (case convert_to_str sf add plist of Inl e \<Rightarrow> Inl e | Inr new_list \<Rightarrow> Inr (t # new_list)))"

subsection \<open>Basis converter\<close>

text \<open>
  \<open>list_index\<close> is \<^verbatim>\<open>list.index\<close> (the first position of a value, \<open>None\<close> for ValueError);
  \<open>lookup_basis\<close> is the lookup in the source stream followed by the read of the
  destination stream at that index; \<open>py_getitem\<close> is \<^verbatim>\<open>xs[i]\<close> for an int \<open>i\<close>, negative
  indices counting from the end. The mapping streams are normalized with the literal
  \<^verbatim>\<open>"null"\<close>, the target with the caller's \<open>add\<close>, and the loops compare with the literal
  \<^verbatim>\<open>"null"\<close>, as in the source.
\<close>

fun list_index :: "'a \<Rightarrow> 'a list \<Rightarrow> nat option" where
  "list_index v [] = None"
| "list_index v (y # ys) = (if y = v then Some 0 else map_option Suc (list_index v ys))"

definition lookup_basis :: "string list \<Rightarrow> string list \<Rightarrow> string \<Rightarrow> py_error + string" where
  "lookup_basis src dst t = (case list_index t src of None \<Rightarrow> Inl ValueError
     | Some idx \<Rightarrow> if idx < length dst then Inr (dst ! idx) else Inl IndexError)"

fun change_basis_loop :: "string list \<Rightarrow> string list \<Rightarrow> bool \<Rightarrow> string list \<Rightarrow> py_error + string list" where
  "change_basis_loop uni pdb forward [] = Inr []"
| "change_basis_loop uni pdb forward (t # target) =
     (case (if t = ''null'' then Inr ''null''
            else if \<not> forward then lookup_basis uni pdb t
            else lookup_basis pdb uni t) of
        Inl e \<Rightarrow> Inl e
      | Inr r \<Rightarrow> (case change_basis_loop uni pdb forward target of Inl e \<Rightarrow> Inl e
                 | Inr modified_target \<Rightarrow> Inr (r # modified_target)))"

definition change_basis :: "(string \<Rightarrow> int option) \<Rightarrow> pyval list \<Rightarrow> pyval list \<Rightarrow> pyval list \<Rightarrow> string \<Rightarrow> bool \<Rightarrow> py_error + string list" where
  "change_basis sf mapped_uni_pos mapped_pdb_pos target_pos add forward =
     (case convert_to_str sf ''null'' mapped_uni_pos of Inl e \<Rightarrow> Inl e
      | Inr uni \<Rightarrow> (case convert_to_str sf ''null'' mapped_pdb_pos of Inl e \<Rightarrow> Inl e
      | Inr pdb \<Rightarrow> (case convert_to_str sf add target_pos of Inl e \<Rightarrow> Inl e
      | Inr target \<Rightarrow> change_basis_loop uni pdb forward target)))"

definition py_getitem :: "'a list \<Rightarrow> int \<Rightarrow> py_error + 'a" where
  "py_getitem xs i =
     (if 0 \<le> i \<and> i < int (length xs) then Inr (xs ! nat i)
      else if - int (length xs) \<le> i \<and> i < 0 then Inr (xs ! nat (int (length xs) + i))
      else Inl IndexError)"

fun index_all :: "'a list \<Rightarrow> int list \<Rightarrow> py_error + 'a list" where
  "index_all mapping [] = Inr []"
| "index_all mapping (idx # indices) =
     (case py_getitem mapping idx of Inl e \<Rightarrow> Inl e
      | Inr r \<Rightarrow> (case index_all mapping indices of Inl e \<Rightarrow> Inl e
                 | Inr modified_target \<Rightarrow> Inr (r # modified_target)))"

definition change_basis2 :: "(string \<Rightarrow> int option) \<Rightarrow> pyval list \<Rightarrow> pyval list \<Rightarrow> int list \<Rightarrow> string \<Rightarrow> py_error + string list" where
  "change_basis2 sf mapping target_pos indices add =
     (case convert_to_str sf ''null'' mapping of Inl e \<Rightarrow> Inl e
      | Inr m \<Rightarrow> (case convert_to_str sf add target_pos of Inl e \<Rightarrow> Inl e
      | Inr target \<Rightarrow> if ''null'' \<in> set target then Inl InvalidPosition else index_all m indices))"

subsection \<open>Gap filling\<close>

text \<open>\<^verbatim>\<open>add_residue_positions\<close>, with its final length check.\<close>

fun add_residue_loop :: "pyval list \<Rightarrow> bool \<Rightarrow> pyval list \<Rightarrow> pyval list" where
  "add_residue_loop target_pos add_null [] = []"
| "add_residue_loop target_pos add_null (pos # query_pos) =
     (let add = (if add_null then PStr ''null'' else pos) in
      (if pos \<notin> set target_pos then add else pos) # add_residue_loop target_pos add_null query_pos)"

definition add_residue_positions :: "pyval list \<Rightarrow> pyval list \<Rightarrow> bool \<Rightarrow> py_error + pyval list" where
  "add_residue_positions query_pos target_pos add_null =
     (let positions = add_residue_loop target_pos add_null query_pos in
      if length positions \<noteq> length query_pos then Inl ExcessiveResidues else Inr positions)"

subsection \<open>Region consolidator\<close>

text \<open>
  \<open>split_on\<close> is \<^verbatim>\<open>str.split(sep)\<close> for a one-character separator. \<open>parse_region\<close> is
  \<^verbatim>\<open>(int(x.split("-")[0]), int(x.split("-")[1]))\<close>, evaluated left to right: ValueError from
  \<^verbatim>\<open>int\<close>, IndexError when the token has no \<^verbatim>\<open>"-"\<close>.
\<close>

fun split_on :: "char \<Rightarrow> string \<Rightarrow> string list" where
  "split_on sep [] = [[]]"
| "split_on sep (c # cs) =
     (if c = sep then [] # split_on sep cs
      else (case split_on sep cs of [] \<Rightarrow> [[c]] | p # ps \<Rightarrow> (c # p) # ps))"

definition parse_region :: "string \<Rightarrow> py_error + region" where
  "parse_region x = (case split_on CHR ''-'' x of [] \<Rightarrow> Inl IndexError
     | p0 # rest \<Rightarrow> (case py_int p0 of None \<Rightarrow> Inl ValueError
        | Some a \<Rightarrow> (case rest of [] \<Rightarrow> Inl IndexError
           | p1 # _ \<Rightarrow> (case py_int p1 of None \<Rightarrow> Inl ValueError | Some b \<Rightarrow> Inr (a, b)))))"

fun parse_regions :: "string list \<Rightarrow> py_error + region list" where
  "parse_regions [] = Inr []"
| "parse_regions (x # xs) = (case parse_region x of Inl e \<Rightarrow> Inl e
     | Inr r \<Rightarrow> (case parse_regions xs of Inl e \<Rightarrow> Inl e | Inr rs \<Rightarrow> Inr (r # rs)))"

definition consolidate_regions :: "string \<Rightarrow> int \<Rightarrow> py_error + region list" where
  "consolidate_regions disorder_regions min_len =
     (case parse_regions (split_on CHR '','' disorder_regions) of Inl e \<Rightarrow> Inl e
      | Inr regions \<Rightarrow> (case merge_overlapping_tuples regions of Inl e \<Rightarrow> Inl e
      | Inr merged \<Rightarrow> Inr (filter (\<lambda>x. snd x - fst x + 1 \<ge> min_len) merged)))"

subsection \<open>Notions used in the statements and proofs\<close>

text \<open>
  A sweep over the sorted positions that carries the start \<open>a\<close> of the current run and its
  last position \<open>x\<close>; the pairing of the edge list computes exactly this sweep.
\<close>

fun runs_from :: "int \<Rightarrow> int \<Rightarrow> int list \<Rightarrow> region list" where
  "runs_from a x [] = [(a, x)]"
| "runs_from a x (y # ys) = (if x + 1 < y then (a, x) # runs_from y y ys else runs_from a y ys)"

text \<open>\<open>[a, b]\<close> is a maximal run of the set \<open>S\<close>: it lies in \<open>S\<close> and cannot be extended.\<close>

definition maximal_run :: "int set \<Rightarrow> int \<Rightarrow> int \<Rightarrow> bool" where
  "maximal_run S a b = (a \<le> b \<and> {a..b} \<subseteq> S \<and> a - 1 \<notin> S \<and> b + 1 \<notin> S)"

text \<open>
  The input format of the consolidator, written out: \<open>region_string\<close> prints a list of
  intervals as the comma-separated \<^verbatim>\<open>"start-end"\<close> tokens of the disorder databases
  (\<open>join_on\<close> is \<^verbatim>\<open>sep.join\<close>). It is not part of the source; the claim about parsing is stated
  with it.
\<close>

fun join_on :: "char \<Rightarrow> string list \<Rightarrow> string" where
  "join_on sep [] = []"
| "join_on sep [x] = x"
| "join_on sep (x # y # ys) = x @ sep # join_on sep (y # ys)"

definition region_token :: "region \<Rightarrow> string" where
  "region_token r = str_int (fst r) @ ''-'' @ str_int (snd r)"

definition region_string :: "region list \<Rightarrow> string" where
  "region_string rs = join_on CHR '','' (map region_token rs)"

section \<open>Properties of the interval merger\<close>

subsection \<open>The merger never raises\<close>

text \<open>
  Every \<open>y\<close> the inner loop visits comes from a slice of \<open>L\<close> taken before the removals,
  and each removal deletes one copy of the visited element, so \<^verbatim>\<open>remove\<close> always finds it.
\<close>

lemma merge_inner_returns:
  "mset ys \<subseteq># mset L \<Longrightarrow> \<exists>a b L'. merge_inner x ys (x1, x2, L) = Inr (a, b, L')"
proof (induction ys arbitrary: x1 x2 L)
  case Nil
  then show ?case by simp
next
  case (Cons y ys)
  from Cons.prems have yL: "y \<in> set L"
    by (metis mset.simps(2) mset_subset_eq_insertD set_mset_mset)
  have rm: "list_remove y L = Inr (remove1 y L)"
    using yL by (simp add: list_remove_def)
  have sub1: "mset ys \<subseteq># mset (remove1 y L)"
    using Cons.prems yL by (simp add: insert_subset_eq_iff)
  have sub2: "mset ys \<subseteq># mset L"
    using Cons.prems by (metis mset.simps(2) mset_subset_eq_insertD subset_mset.less_imp_le)
  show ?case
    using Cons.IH [OF sub1] Cons.IH [OF sub2] by (simp add: rm)
qed

lemma merge_outer_returns: "\<exists>out. merge_outer k L merged = Inr out"
proof (induction k L merged rule: merge_outer.induct)
  case (1 k L merged)
  show ?case
  proof (cases "k < length L")
    case False
    then show ?thesis by (simp add: merge_outer.simps)
  next
    case True
    have "mset (drop (Suc k) L) \<subseteq># mset L"
      by (metis append_take_drop_id mset_append mset_subset_eq_add_right)
    then obtain a b L' where r: "merge_inner (L ! k) (drop (Suc k) L) (fst (L ! k), snd (L ! k), L) = Inr (a, b, L')"
      using merge_inner_returns by blast
    from "1.IH" [OF True r] obtain out where "merge_outer (Suc k) L' (merged @ [(a, b)]) = Inr out"
      by auto
    then show ?thesis
      using True r by (subst merge_outer.simps) simp
  qed
qed

lemma merge_overlapping_tuples_returns: "\<exists>out. merge_overlapping_tuples rs = Inr out"
  by (simp add: merge_overlapping_tuples_def merge_outer_returns)

subsection \<open>Claims about the interval merger\<close>

text \<open>
  Claim C2. For two input lists that are permutations of each other (equal as multisets),
  \<open>merge_overlapping_tuples\<close> returns, without raising, the same output list: the result
  does not depend on the order of the input list.
\<close>

theorem merge_overlapping_tuples_permutation:
  "mset xs = mset ys \<Longrightarrow>
   \<exists>out. merge_overlapping_tuples xs = Inr out \<and> merge_overlapping_tuples ys = Inr out"
proof -
  assume "mset xs = mset ys"
  then have "sort xs = sort ys"
    by (metis properties_for_sort sorted_sort mset_sort)
  then have "merge_overlapping_tuples xs = merge_overlapping_tuples ys"
    by (simp add: merge_overlapping_tuples_def)
  then show ?thesis
    using merge_overlapping_tuples_returns [of xs] by auto
qed

theorem merge_overlapping_tuples_permutation_witness:
  "mset [(8, 25), (1, 2), (5, 10)] = mset [(1, 2), (5, 10), (8, 25 :: int) :: int \<times> int] \<and>
   merge_overlapping_tuples [(8, 25), (1, 2), (5, 10)] = Inr [(1, 2), (5, 25)] \<and>
   merge_overlapping_tuples [(1, 2), (5, 10), (8, 25)] = Inr [(1, 2), (5, 25)]"
proof -
  have h: "mset [(8, 25), (1, 2), (5, 10)] = mset [(1, 2), (5, 10), (8, 25 :: int) :: int \<times> int]"
    by simp
  have e: "merge_overlapping_tuples [(1, 2), (5, 10), (8, 25)] = Inr [(1, 2), (5, 25)]"
    by code_simp
  from merge_overlapping_tuples_permutation [OF h] e h show ?thesis
    by auto
qed

text \<open>
  Claim C1. The output of \<open>merge_overlapping_tuples\<close> should cover exactly the integer
  points of its input. On the three well-formed intervals \<open>(1,1)\<close>, \<open>(1,5)\<close>, \<open>(2,2)\<close>, which
  must merge into \<open>(1,5)\<close>, the code returns \<open>[(1,2)]\<close>: the running interval has grown to
  \<open>(1,5)\<close> when \<open>(2,2)\<close> is visited, the first branch fires (\<open>\<bar>y2 - x1\<bar> = 1\<close>) and
  recomputes the bounds from the original \<open>x = (1,1)\<close> instead of the running interval, so
  the points 3, 4 and 5 are lost. In the same way \<open>(1,5)\<close>, \<open>(3,20)\<close>, \<open>(19,19)\<close> gives
  \<open>[(1,19)]\<close> (through \<open>\<bar>x2 - y1\<bar> = 1\<close>) and loses the point 20.
\<close>

theorem merge_overlapping_tuples_loses_points:
  "merge_overlapping_tuples [(1, 1), (1, 5), (2, 2)] = Inr [(1, 2)] \<and>
   merge_overlapping_tuples [(1, 5), (3, 20), (19, 19)] = Inr [(1, 19)]"
  by code_simp

text \<open>The two examples of the specification, on which the code does merge transitively.\<close>

lemma merge_overlapping_tuples_examples:
  "merge_overlapping_tuples [(1, 2), (5, 10), (8, 25)] = Inr [(1, 2), (5, 25)] \<and>
   merge_overlapping_tuples [(1, 2), (5, 10), (8, 25), (26, 34), (10, 20), (32, 37)] =
     Inr [(1, 2), (5, 37)]"
  by code_simp

section \<open>The interval extractor returns the maximal runs\<close>

lemma gaps_Cons2: "gaps (x # y # ys) = (if x + 1 < y then [[x, y]] else []) @ gaps (y # ys)"
  by (simp add: gaps_def)

lemma gaps_single: "gaps [x] = []"
  by (simp add: gaps_def)

lemma pairs_edges_runs:
  "pairs (a # concat (gaps (x # xs)) @ [last (x # xs)]) = runs_from a x xs"
proof (induction xs arbitrary: a x)
  case Nil
  show ?case by (simp add: gaps_single)
next
  case (Cons y ys)
  show ?case
    using Cons.IH [of y y] Cons.IH [of a y] by (simp add: gaps_Cons2)
qed

lemma ranges_runs:
  "ranges positions = (case sort (remdups positions) of [] \<Rightarrow> [] | x # xs \<Rightarrow> runs_from x x xs)"
  using pairs_edges_runs by (simp add: ranges_def edges_def gaps_def split: list.splits)

lemma maximal_run_interval:
  "a \<le> x \<Longrightarrow> maximal_run {a..x} c d \<longleftrightarrow> c = a \<and> d = x"
  unfolding maximal_run_def by (auto simp: subset_iff) 

lemma maximal_run_separated:
  assumes "\<forall>p\<in>A. p \<le> x" "\<forall>p\<in>B. y \<le> p" "x + 1 < y"
  shows "maximal_run (A \<union> B) c d \<longleftrightarrow> maximal_run A c d \<or> maximal_run B c d"
proof
  assume m: "maximal_run (A \<union> B) c d"
  have nx: "x + 1 \<notin> A \<union> B"
    using assms by force
  have "d < x + 1 \<or> x + 1 < c"
  proof (rule ccontr)
    assume "\<not> (d < x + 1 \<or> x + 1 < c)"
    then have "x + 1 \<in> {c..d}" by simp
    with m nx show False
      unfolding maximal_run_def by blast
  qed
  then show "maximal_run A c d \<or> maximal_run B c d"
  proof
    assume "d < x + 1"
    then have "{c..d} \<subseteq> A"
      using m assms unfolding maximal_run_def by (force simp: subset_iff)
    then show ?thesis
      using m unfolding maximal_run_def by auto
  next
    assume "x + 1 < c"
    then have "{c..d} \<subseteq> B"
      using m assms unfolding maximal_run_def by (force simp: subset_iff)
    then show ?thesis
      using m unfolding maximal_run_def by auto
  qed
next
  assume "maximal_run A c d \<or> maximal_run B c d"
  then show "maximal_run (A \<union> B) c d"
  proof
    assume m: "maximal_run A c d"
    then have "c \<in> A" "d \<in> A"
      unfolding maximal_run_def by auto
    then have "c \<le> x" "d \<le> x"
      using assms by auto
    then have "c - 1 \<notin> B" "d + 1 \<notin> B"
      using assms by force+
    then show ?thesis
      using m unfolding maximal_run_def by auto
  next
    assume m: "maximal_run B c d"
    then have "c \<in> B" "d \<in> B"
      unfolding maximal_run_def by auto
    then have "y \<le> c" "y \<le> d"
      using assms by auto
    then have "c - 1 \<notin> A" "d + 1 \<notin> A"
      using assms by force+
    then show ?thesis
      using m unfolding maximal_run_def by auto
  qed
qed

lemma set_runs_from:
  "sorted_wrt (<) (x # xs) \<Longrightarrow> a \<le> x \<Longrightarrow>
   set (runs_from a x xs) = {(c, d). maximal_run ({a..x} \<union> set xs) c d}"
proof (induction xs arbitrary: a x)
  case Nil
  then show ?case by (auto simp: maximal_run_interval)
next
  case (Cons y ys)
  from Cons.prems have xy: "x < y" and sy: "sorted_wrt (<) (y # ys)" and ys: "\<forall>p\<in>set ys. y < p"
    by auto
  show ?case
  proof (cases "x + 1 < y")
    case True
    define B where "B = set (y # ys)"
    have sep: "\<And>c d. maximal_run ({a..x} \<union> B) c d \<longleftrightarrow>
        maximal_run {a..x} c d \<or> maximal_run B c d"
      using ys True unfolding B_def by (intro maximal_run_separated [of _ x _ y]) auto
    have "{y..y} \<union> set ys = B"
      unfolding B_def by auto
    then have ih: "set (runs_from y y ys) = {(c, d). maximal_run B c d}"
      using Cons.IH [OF sy, of y] by simp
    have "set (runs_from a x (y # ys)) = insert (a, x) (set (runs_from y y ys))"
      using True by simp
    also have "\<dots> = {(c, d). maximal_run ({a..x} \<union> B) c d}"
      unfolding ih using Cons.prems(2) by (auto simp: sep maximal_run_interval)
    also have "\<dots> = {(c, d). maximal_run ({a..x} \<union> set (y # ys)) c d}"
      unfolding B_def ..
    finally show ?thesis .
  next
    case False
    with xy have y: "y = x + 1" by simp
    have eq: "{a..x} \<union> set (y # ys) = {a..y} \<union> set ys"
      using y Cons.prems(2) by auto
    have "a \<le> y"
      using Cons.prems(2) xy by simp
    from Cons.IH [OF sy this] show ?thesis
      using False by (simp only: runs_from.simps if_False eq)
  qed
qed

lemma runs_from_separated:
  "sorted_wrt (<) (x # xs) \<Longrightarrow> a \<le> x \<Longrightarrow>
   sorted_wrt (\<lambda>p q. snd p + 1 < fst q) (runs_from a x xs) \<and>
   list_all (\<lambda>p. a \<le> fst p) (runs_from a x xs)"
proof (induction xs arbitrary: a x)
  case Nil
  then show ?case by simp
next
  case (Cons y ys)
  from Cons.prems have xy: "x < y" and sy: "sorted_wrt (<) (y # ys)"
    by auto
  show ?case
  proof (cases "x + 1 < y")
    case True
    from Cons.IH [OF sy, of y]
    have s: "sorted_wrt (\<lambda>p q. snd p + 1 < fst q) (runs_from y y ys)"
      and l: "list_all (\<lambda>p. y \<le> fst p) (runs_from y y ys)"
      by simp_all
    from l True have "\<forall>q\<in>set (runs_from y y ys). x + 1 < fst q"
      by (auto simp: list_all_iff)
    moreover from l xy Cons.prems(2) have "list_all (\<lambda>p. a \<le> fst p) (runs_from y y ys)"
      by (auto simp: list_all_iff)
    ultimately show ?thesis
      using True s by simp
  next
    case False
    have "a \<le> y"
      using Cons.prems(2) xy by simp
    from Cons.IH [OF sy this] show ?thesis
      using False by simp
  qed
qed

lemma strict_sorted_positions: "sorted_wrt (<) (sort (remdups positions))"
  by (simp add: strict_sorted_iff)

lemma ranges_set:
  "set (ranges positions) = {(a, b). maximal_run (set positions) a b}"
proof (cases "sort (remdups positions)")
  case Nil
  then have "set positions = {}"
    by (metis set_empty set_remdups set_sort)
  then show ?thesis
    using Nil by (auto simp: ranges_runs maximal_run_def)
next
  case (Cons x xs)
  have "sorted_wrt (<) (x # xs)"
    using strict_sorted_positions [of positions] Cons by simp
  then have "set (runs_from x x xs) = {(c, d). maximal_run ({x..x} \<union> set xs) c d}"
    by (rule set_runs_from) simp
  moreover have "{x..x} \<union> set xs = set positions"
    by (metis Cons atLeastAtMost_singleton insert_is_Un list.simps(15) set_remdups set_sort)
  ultimately show ?thesis
    using Cons by (simp add: ranges_runs)
qed

lemma ranges_separated:
  "sorted_wrt (\<lambda>p q. snd p + 1 < fst q) (ranges positions)"
proof (cases "sort (remdups positions)")
  case Nil
  then show ?thesis by (simp add: ranges_runs)
next
  case (Cons x xs)
  have "sorted_wrt (<) (x # xs)"
    using strict_sorted_positions [of positions] Cons by simp
  from runs_from_separated [OF this, of x] show ?thesis
    using Cons by (simp add: ranges_runs)
qed

lemma ranges_strictly_ascending: "sorted_wrt (<) (ranges positions)"
proof -
  have "\<And>p q. p \<in> set (ranges positions) \<Longrightarrow> snd p + 1 < fst q \<Longrightarrow> p < q"
  proof -
    fix p q :: region
    assume "p \<in> set (ranges positions)" and g: "snd p + 1 < fst q"
    then have "fst p \<le> snd p"
      by (auto simp: ranges_set maximal_run_def)
    with g have "fst p < fst q" by simp
    then show "p < q"
      by (cases p, cases q) (simp add: less_prod_def)
  qed
  then show ?thesis
    using ranges_separated [of positions]
    by (auto intro: sorted_wrt_mono_rel [rotated])
qed

text \<open>
  Claim C6. For every list of integer positions (duplicates and any order allowed),
  \<open>ranges\<close> returns the intervals \<open>(a, b)\<close> with \<open>a \<le> b\<close> such that every integer of \<open>[a, b]\<close>
  occurs in the input and neither \<open>a - 1\<close> nor \<open>b + 1\<close> does, each once, in ascending order
  (with a gap between one interval's end and the next one's start); and on the list of the
  specification it returns \<open>[(11,18), (22,25), (40,43), (67,70)]\<close>.
\<close>

theorem ranges_maximal_intervals:
  "set (ranges positions) =
     {(a, b). a \<le> b \<and> (\<forall>k. a \<le> k \<and> k \<le> b \<longrightarrow> k \<in> set positions) \<and>
              a - 1 \<notin> set positions \<and> b + 1 \<notin> set positions} \<and>
   sorted (ranges positions) \<and> distinct (ranges positions) \<and>
   sorted_wrt (\<lambda>p q. snd p + 1 < fst q) (ranges positions) \<and>
   ranges [11, 12, 13, 14, 15, 16, 17, 18, 22, 23, 24, 25, 40, 41, 42, 43, 67, 68, 69, 70] =
     [(11, 18), (22, 25), (40, 43), (67, 70)]"
proof -
  have "set (ranges positions) =
     {(a, b). a \<le> b \<and> (\<forall>k. a \<le> k \<and> k \<le> b \<longrightarrow> k \<in> set positions) \<and>
              a - 1 \<notin> set positions \<and> b + 1 \<notin> set positions}"
    unfolding ranges_set maximal_run_def by (auto simp: subset_iff)
  moreover have "sorted (ranges positions)" "distinct (ranges positions)"
    using ranges_strictly_ascending [of positions] by (simp_all add: strict_sorted_iff)
  moreover have "ranges [11, 12, 13, 14, 15, 16, 17, 18, 22, 23, 24, 25, 40, 41, 42, 43, 67, 68, 69, 70] =
     [(11, 18), (22, 25), (40, 43), (67, 70)]"
    by code_simp
  ultimately show ?thesis
    using ranges_separated [of positions] by blast
qed

theorem ranges_maximal_intervals_witness:
  "(1, 3) \<in> set (ranges [3, 1, 2, 7, 3]) \<and> (7, 7) \<in> set (ranges [3, 1, 2, 7, 3]) \<and>
   (1, 2) \<notin> set (ranges [3, 1, 2, 7, 3]) \<and> sorted (ranges [3, 1, 2, 7, 3])"
proof -
  have a: "\<forall>k::int. 1 \<le> k \<and> k \<le> 3 \<longrightarrow> k \<in> set [3, 1, 2, 7, 3]"
    by auto
  have b: "\<forall>k::int. 7 \<le> k \<and> k \<le> 7 \<longrightarrow> k \<in> set [3, 1, 2, 7, 3]"
    by auto
  from ranges_maximal_intervals [of "[3, 1, 2, 7, 3]"] a b show ?thesis
    by simp
qed

section \<open>Gap filling\<close>

lemma length_add_residue_loop:
  "length (add_residue_loop target_pos add_null query_pos) = length query_pos"
  by (induction query_pos) (simp_all add: Let_def)

text \<open>
  Claim C7. For every \<open>query_pos\<close>, \<open>target_pos\<close> and \<open>add_null\<close>, \<open>add_residue_positions\<close>
  returns a list with one element per element of \<open>query_pos\<close>; its
  "Excessive residues added to the target" branch is never taken.
\<close>

theorem add_residue_positions_length:
  "(\<exists>positions. add_residue_positions query_pos target_pos add_null = Inr positions \<and>
      length positions = length query_pos) \<and>
   add_residue_positions query_pos target_pos add_null \<noteq> Inl ExcessiveResidues"
  by (simp add: add_residue_positions_def length_add_residue_loop)

text \<open>
  Claim C8, as stated, fails. With the eight positions 11..18 as \<open>query_pos\<close> the result has
  eight elements, so it is not the nine-element list of the claim, which ends with one more
  \<^verbatim>\<open>"null"\<close>.
\<close>

theorem add_residue_positions_example_counterexample:
  "add_residue_positions
     [PInt 11, PInt 12, PInt 13, PInt 14, PInt 15, PInt 16, PInt 17, PInt 18]
     [PInt 14, PInt 15, PInt 16, PInt 17, PInt 18] True
   \<noteq> Inr [PStr ''null'', PStr ''null'', PStr ''null'',
          PInt 14, PInt 15, PInt 16, PInt 17, PInt 18, PStr ''null'']"
  by (simp add: add_residue_positions_def)

text \<open>
  Claim C8, amended. With \<open>query_pos = [11..18]\<close>, \<open>target_pos = [14..18]\<close> and
  \<open>add_null = True\<close>, \<open>add_residue_positions\<close> returns
  \<^verbatim>\<open>["null","null","null",14,15,16,17,18]\<close>; the nine-element list with the trailing
  \<^verbatim>\<open>"null"\<close> is the result for the nine positions 11..19 (the source's own test).
\<close>

theorem add_residue_positions_example:
  "add_residue_positions
     [PInt 11, PInt 12, PInt 13, PInt 14, PInt 15, PInt 16, PInt 17, PInt 18]
     [PInt 14, PInt 15, PInt 16, PInt 17, PInt 18] True
   = Inr [PStr ''null'', PStr ''null'', PStr ''null'',
          PInt 14, PInt 15, PInt 16, PInt 17, PInt 18] \<and>
   add_residue_positions
     [PInt 11, PInt 12, PInt 13, PInt 14, PInt 15, PInt 16, PInt 17, PInt 18, PInt 19]
     [PInt 14, PInt 15, PInt 16, PInt 17, PInt 18] True
   = Inr [PStr ''null'', PStr ''null'', PStr ''null'',
          PInt 14, PInt 15, PInt 16, PInt 17, PInt 18, PStr ''null'']"
  by (simp add: add_residue_positions_def)

section \<open>Basis converter by index\<close>

lemma index_all_Inr:
  "index_all m indices = Inr out \<longleftrightarrow>
   length out = length indices \<and> (\<forall>i<length indices. py_getitem m (indices ! i) = Inr (out ! i))"
proof (induction indices arbitrary: out)
  case Nil
  then show ?case by auto
next
  case (Cons idx indices)
  show ?case
  proof (cases out)
    case Nil
    then show ?thesis by (auto split: sum.splits)
  next
    case (Cons r rs)
    show ?thesis
      unfolding Cons using Cons.IH [of rs]
      by (auto simp: All_less_Suc2 split: sum.splits)
  qed
qed

lemma index_all_in_range:
  "\<forall>idx\<in>set indices. - int (length m) \<le> idx \<and> idx < int (length m) \<Longrightarrow>
   \<exists>out. index_all m indices = Inr out"
proof (induction indices)
  case Nil
  then show ?case by simp
next
  case (Cons idx indices)
  then obtain out where "index_all m indices = Inr out" by auto
  moreover have "\<exists>r. py_getitem m idx = Inr r"
    using Cons.prems by (auto simp: py_getitem_def Let_def)
  ultimately show ?case by auto
qed

lemma index_all_out_of_range:
  "\<not> (\<forall>idx\<in>set indices. - int (length m) \<le> idx \<and> idx < int (length m)) \<Longrightarrow>
   index_all m indices = Inl IndexError"
proof (induction indices)
  case Nil
  then show ?case by simp
next
  case (Cons idx indices)
  show ?case
  proof (cases "- int (length m) \<le> idx \<and> idx < int (length m)")
    case True
    then have "\<exists>r. py_getitem m idx = Inr r"
      by (auto simp: py_getitem_def Let_def)
    moreover from True Cons.prems have "index_all m indices = Inl IndexError"
      by (intro Cons.IH) auto
    ultimately show ?thesis by auto
  next
    case False
    then have "py_getitem m idx = Inl IndexError"
      by (auto simp: py_getitem_def Let_def)
    then show ?thesis by simp
  qed
qed

text \<open>
  Claim C10. Whenever \<open>change_basis2\<close> returns a list, the mapping was normalized to some
  \<open>m\<close>, the output has the length of \<open>indices\<close>, its \<open>i\<close>-th element is \<^verbatim>\<open>m[indices[i]]\<close>
  (Python indexing), and every other call with the same mapping and indices that returns,
  whatever its target and marker, returns the same list.
\<close>

theorem change_basis2_output:
  assumes "change_basis2 sf mapping target_pos indices add = Inr out"
  shows "\<exists>m. convert_to_str sf ''null'' mapping = Inr m \<and>
           length out = length indices \<and>
           (\<forall>i<length indices. py_getitem m (indices ! i) = Inr (out ! i)) \<and>
           (\<forall>target' add' out'.
              change_basis2 sf mapping target' indices add' = Inr out' \<longrightarrow> out' = out)"
proof -
  from assms obtain m where m: "convert_to_str sf ''null'' mapping = Inr m"
    and out: "index_all m indices = Inr out"
    by (auto simp: change_basis2_def split: sum.splits if_splits)
  have "\<And>target' add' out'. change_basis2 sf mapping target' indices add' = Inr out' \<Longrightarrow> out' = out"
    using m out by (auto simp: change_basis2_def split: sum.splits if_splits)
  with m out show ?thesis
    unfolding index_all_Inr by blast
qed

theorem change_basis2_output_witness:
  "change_basis2 int_float_literal [PInt 40, PInt 41] [PInt 1] [1, - 2] ''null'' = Inr [''41'', ''40''] \<and>
   convert_to_str int_float_literal ''null'' [PInt 40, PInt 41] = Inr [''40'', ''41''] \<and>
   length [''41'', ''40''] = length [1, - 2 :: int] \<and>
   py_getitem [''40'', ''41''] (- 2) = Inr ''40''"
proof -
  have h: "change_basis2 int_float_literal [PInt 40, PInt 41] [PInt 1] [1, - 2] ''null'' = Inr [''41'', ''40'']"
    by code_simp
  have c: "convert_to_str int_float_literal ''null'' [PInt 40, PInt 41] = Inr [''40'', ''41'']"
    by code_simp
  from change_basis2_output [OF h] c
  have "\<forall>i<length [1, - 2 :: int]. py_getitem [''40'', ''41''] ([1, - 2] ! i) = Inr ([''41'', ''40''] ! i)"
    by auto
  then have "py_getitem [''40'', ''41''] ([1, - 2] ! 1) = Inr ([''41'', ''40''] ! 1)"
    by (metis length_Cons list.size(3) lessI One_nat_def)
  with h c show ?thesis by simp
qed

text \<open>
  Claim C9, as stated, fails. Here the normalized target \<open>[''1'']\<close> holds no missing marker,
  yet no result is returned: the index 3 is outside the one-element mapping and the read
  \<^verbatim>\<open>mapping[idx]\<close> raises IndexError.
\<close>

theorem change_basis2_index_error:
  "convert_to_str int_float_literal ''null'' [PInt 1] = Inr [''1''] \<and>
   ''null'' \<notin> set [''1''] \<and>
   change_basis2 int_float_literal [PInt 40] [PInt 1] [3] ''null'' = Inl IndexError"
  by code_simp

text \<open>
  Claim C9, amended. With the default marker \<^verbatim>\<open>"null"\<close>, and the mapping and the target
  normalized to \<open>m\<close> and \<open>target\<close>: if \<open>target\<close> contains \<^verbatim>\<open>"null"\<close>, \<open>change_basis2\<close> raises
  the "Invalid position" error; if it does not, that error is not raised, a list is returned
  when every index lies in \<open>[-len(m), len(m))\<close>, and IndexError is raised otherwise.
\<close>

theorem change_basis2_invalid_position:
  assumes "convert_to_str sf ''null'' mapping = Inr m"
    and "convert_to_str sf ''null'' target_pos = Inr target"
  shows "(''null'' \<in> set target \<longrightarrow>
            change_basis2 sf mapping target_pos indices ''null'' = Inl InvalidPosition) \<and>
         (''null'' \<notin> set target \<longrightarrow>
            change_basis2 sf mapping target_pos indices ''null'' \<noteq> Inl InvalidPosition \<and>
            ((\<forall>idx\<in>set indices. - int (length m) \<le> idx \<and> idx < int (length m)) \<longrightarrow>
               (\<exists>out. change_basis2 sf mapping target_pos indices ''null'' = Inr out)) \<and>
            (\<not> (\<forall>idx\<in>set indices. - int (length m) \<le> idx \<and> idx < int (length m)) \<longrightarrow>
               change_basis2 sf mapping target_pos indices ''null'' = Inl IndexError))"
proof -
  have e: "change_basis2 sf mapping target_pos indices ''null'' =
      (if ''null'' \<in> set target then Inl InvalidPosition else index_all m indices)"
    using assms by (simp add: change_basis2_def)
  have "index_all m indices \<noteq> Inl InvalidPosition"
    by (cases "\<forall>idx\<in>set indices. - int (length m) \<le> idx \<and> idx < int (length m)")
      (use index_all_in_range [of indices m] index_all_out_of_range [of indices m] in auto)
  then show ?thesis
    unfolding e using index_all_in_range [of indices m] index_all_out_of_range [of indices m]
    by auto
qed

theorem change_basis2_invalid_position_witness:
  "change_basis2 int_float_literal [PInt 40, PInt 41] [PInt 1, PNone] [0] ''null'' = Inl InvalidPosition \<and>
   change_basis2 int_float_literal [PInt 40, PInt 41] [PInt 1, PInt 2] [0, - 1] ''null'' = Inr [''40'', ''41''] \<and>
   change_basis2 int_float_literal [PInt 40, PInt 41] [PInt 1, PInt 2] [0, 2] ''null'' = Inl IndexError"
proof -
  have m: "convert_to_str int_float_literal ''null'' [PInt 40, PInt 41] = Inr [''40'', ''41'']"
    by code_simp
  have t1: "convert_to_str int_float_literal ''null'' [PInt 1, PNone] = Inr [''1'', ''null'']"
    by code_simp
  have t2: "convert_to_str int_float_literal ''null'' [PInt 1, PInt 2] = Inr [''1'', ''2'']"
    by code_simp
  have a: "change_basis2 int_float_literal [PInt 40, PInt 41] [PInt 1, PNone] [0] ''null'' = Inl InvalidPosition"
    using change_basis2_invalid_position [OF m t1, of "[0]"] by simp
  have b: "\<exists>out. change_basis2 int_float_literal [PInt 40, PInt 41] [PInt 1, PInt 2] [0, - 1] ''null'' = Inr out"
    using change_basis2_invalid_position [OF m t2, of "[0, - 1]"] by simp
  have b': "change_basis2 int_float_literal [PInt 40, PInt 41] [PInt 1, PInt 2] [0, - 1] ''null'' = Inr [''40'', ''41'']"
    by code_simp
  have c: "change_basis2 int_float_literal [PInt 40, PInt 41] [PInt 1, PInt 2] [0, 2] ''null'' = Inl IndexError"
    using change_basis2_invalid_position [OF m t2, of "[0, 2]"] by simp
  from a b b' c show ?thesis by simp
qed

section \<open>Basis converter by value\<close>

text \<open>
  Claim C4. A target element that is missing should come out as the missing marker \<open>add\<close>,
  for every marker. The loop of \<open>change_basis\<close> recognises a missing element by the literal
  \<^verbatim>\<open>"null"\<close>, while the target was normalized with \<open>add\<close>. With \<open>add = "7"\<close> the missing
  target element \<^verbatim>\<open>None\<close> is normalized to \<^verbatim>\<open>"7"\<close>, looked up as a PDB position and
  converted to \<^verbatim>\<open>"40"\<close>; with \<open>add = "gap"\<close> the lookup of \<^verbatim>\<open>"gap"\<close> raises ValueError.
  Neither call yields the marker. (This holds whatever \<open>sf\<close> is.)
\<close>

theorem change_basis_custom_marker:
  "convert_to_str sf ''7'' [PNone] = Inr [''7''] \<and>
   change_basis sf [PInt 40] [PInt 7] [PNone] ''7'' True = Inr [''40''] \<and>
   convert_to_str sf ''gap'' [PNone] = Inr [''gap''] \<and>
   change_basis sf [PInt 40] [PInt 7] [PNone] ''gap'' True = Inl ValueError"
proof -
  have a: "int_float 40 = Some 40" "int_float 7 = Some 7"
    by code_simp+
  have b: "str_int 40 = ''40''" "str_int 7 = ''7''"
    by code_simp+
  show ?thesis
    by (simp add: change_basis_def lookup_basis_def a b)
qed

text \<open>
  With the default marker the gaps are propagated: whenever \<open>change_basis\<close> returns with
  \<open>add = "null"\<close>, the output has the length of the target and is \<^verbatim>\<open>"null"\<close> wherever the
  normalized target is.
\<close>

lemma change_basis_loop_null:
  "change_basis_loop uni pdb forward target = Inr out \<Longrightarrow>
   length out = length target \<and> (\<forall>i<length target. target ! i = ''null'' \<longrightarrow> out ! i = ''null'')"
proof (induction target arbitrary: out)
  case Nil
  then show ?case by simp
next
  case (Cons t target)
  from Cons.prems obtain r rs where out: "out = r # rs"
    and rs: "change_basis_loop uni pdb forward target = Inr rs"
    and r: "t = ''null'' \<longrightarrow> r = ''null''"
    by (auto split: sum.splits if_splits)
  from Cons.IH [OF rs] r show ?case
    unfolding out by (auto simp: All_less_Suc2)
qed

lemma change_basis_null_propagates:
  assumes "change_basis sf mapped_uni_pos mapped_pdb_pos target_pos ''null'' forward = Inr out"
  shows "\<exists>target. convert_to_str sf ''null'' target_pos = Inr target \<and>
           length out = length target \<and>
           (\<forall>i<length target. target ! i = ''null'' \<longrightarrow> out ! i = ''null'')"
  using assms change_basis_loop_null
  by (auto simp: change_basis_def split: sum.splits)

lemma list_index_Some:
  "list_index v xs = Some i \<Longrightarrow> i < length xs \<and> xs ! i = v"
  by (induction xs arbitrary: i) (auto split: if_splits)

lemma list_index_mem:
  "v \<in> set xs \<Longrightarrow> \<exists>i. list_index v xs = Some i"
  by (induction xs) auto

lemma list_index_distinct:
  "distinct xs \<Longrightarrow> i < length xs \<Longrightarrow> list_index (xs ! i) xs = Some i"
proof (induction xs arbitrary: i)
  case Nil
  then show ?case by simp
next
  case (Cons x xs)
  then show ?case
    by (cases i) auto
qed

lemma convert_to_str_PStr:
  "convert_to_str sf add (map PStr xs) = Inr xs \<longleftrightarrow>
   (\<forall>x\<in>set xs. convert_elem sf add (PStr x) = Inr x)"
proof (induction xs)
  case Nil
  show ?case by simp
next
  case (Cons x xs)
  show ?case
  proof (cases "convert_elem sf add (PStr x)")
    case (Inl e)
    then show ?thesis by (simp del: convert_elem.simps)
  next
    case (Inr t)
    note t = this
    show ?thesis
    proof (cases "convert_to_str sf add (map PStr xs)")
      case (Inl e)
      with t Cons.IH show ?thesis by (auto simp del: convert_elem.simps)
    next
      case (Inr ts)
      with t Cons.IH show ?thesis by (auto simp del: convert_elem.simps)
    qed
  qed
qed

lemma convert_to_str_length:
  "convert_to_str sf add plist = Inr new_list \<Longrightarrow> length new_list = length plist"
  by (induction plist arbitrary: new_list) (auto simp del: convert_elem.simps split: sum.splits)

lemma round_trip_loop:
  assumes len: "length uni = length pdb" and nomiss: "''null'' \<notin> set uni" "''null'' \<notin> set pdb"
    and dist: "distinct uni"
  shows "set target \<subseteq> set pdb \<Longrightarrow>
    \<exists>ys. change_basis_loop uni pdb True target = Inr ys \<and> set ys \<subseteq> set uni \<and>
          change_basis_loop uni pdb False ys = Inr target"
proof (induction target)
  case Nil
  then show ?case by simp
next
  case (Cons t target)
  then obtain ys where ys: "change_basis_loop uni pdb True target = Inr ys" "set ys \<subseteq> set uni"
    "change_basis_loop uni pdb False ys = Inr target"
    by auto
  from Cons.prems have t: "t \<in> set pdb" by simp
  with nomiss have tn: "t \<noteq> ''null''" by auto
  from t obtain i where i: "list_index t pdb = Some i"
    using list_index_mem by fastforce
  then have il: "i < length pdb" and it: "pdb ! i = t"
    using list_index_Some by fastforce+
  have fw: "lookup_basis pdb uni t = Inr (uni ! i)"
    using i il len by (simp add: lookup_basis_def)
  have um: "uni ! i \<in> set uni"
    using il len by simp
  with nomiss have un: "uni ! i \<noteq> ''null''" by auto
  have "list_index (uni ! i) uni = Some i"
    using dist il len by (simp add: list_index_distinct)
  then have bw: "lookup_basis uni pdb (uni ! i) = Inr t"
    using il it by (simp add: lookup_basis_def)
  show ?case
    using ys fw bw tn un um by (intro exI [of _ "uni ! i # ys"]) simp
qed

text \<open>
  Claim C3, amended. Let the mapping streams normalize to \<open>uni\<close> and \<open>pdb\<close>, of equal
  length and without \<^verbatim>\<open>"null"\<close>, let \<open>uni\<close> have no repeated token and let each of its tokens
  be left unchanged by the normalizer, and let \<open>X\<close> normalize to tokens that all occur in
  \<open>pdb\<close>. Then \<open>change_basis\<close> with \<open>forward = True\<close> returns a list \<open>ys\<close>, and \<open>change_basis\<close>
  with \<open>forward = False\<close> on \<open>ys\<close> returns the normalized \<open>X\<close>.
\<close>

theorem change_basis_round_trip:
  assumes "convert_to_str sf ''null'' mapped_uni_pos = Inr uni"
    and "convert_to_str sf ''null'' mapped_pdb_pos = Inr pdb"
    and "length uni = length pdb"
    and "''null'' \<notin> set uni" and "''null'' \<notin> set pdb"
    and "distinct uni"
    and "convert_to_str sf ''null'' (map PStr uni) = Inr uni"
    and "convert_to_str sf ''null'' X = Inr target"
    and "set target \<subseteq> set pdb"
  shows "\<exists>ys. change_basis sf mapped_uni_pos mapped_pdb_pos X ''null'' True = Inr ys \<and>
              change_basis sf mapped_uni_pos mapped_pdb_pos (map PStr ys) ''null'' False = Inr target"
proof -
  from round_trip_loop [OF assms(3,4,5,6,9)]
  obtain ys where ys: "change_basis_loop uni pdb True target = Inr ys" "set ys \<subseteq> set uni"
    "change_basis_loop uni pdb False ys = Inr target"
    by auto
  have "\<forall>x\<in>set uni. convert_elem sf ''null'' (PStr x) = Inr x"
    using assms(7) by (simp add: convert_to_str_PStr)
  with ys(2) have "convert_to_str sf ''null'' (map PStr ys) = Inr ys"
    unfolding convert_to_str_PStr by blast
  with ys assms(1,2,8) show ?thesis
    by (simp add: change_basis_def)
qed

theorem change_basis_round_trip_witness:
  "change_basis int_float_literal [PInt 35, PInt 36, PInt 37] [PInt 11, PInt 12, PInt 14]
     [PInt 14, PInt 11] ''null'' True = Inr [''37'', ''35''] \<and>
   change_basis int_float_literal [PInt 35, PInt 36, PInt 37] [PInt 11, PInt 12, PInt 14]
     (map PStr [''37'', ''35'']) ''null'' False = Inr [''14'', ''11'']"
proof -
  have u: "convert_to_str int_float_literal ''null'' [PInt 35, PInt 36, PInt 37] = Inr [''35'', ''36'', ''37'']"
    by code_simp
  have p: "convert_to_str int_float_literal ''null'' [PInt 11, PInt 12, PInt 14] = Inr [''11'', ''12'', ''14'']"
    by code_simp
  have s: "convert_to_str int_float_literal ''null'' (map PStr [''35'', ''36'', ''37'']) = Inr [''35'', ''36'', ''37'']"
    by code_simp
  have x: "convert_to_str int_float_literal ''null'' [PInt 14, PInt 11] = Inr [''14'', ''11'']"
    by code_simp
  have f: "change_basis int_float_literal [PInt 35, PInt 36, PInt 37] [PInt 11, PInt 12, PInt 14]
     [PInt 14, PInt 11] ''null'' True = Inr [''37'', ''35'']"
    by code_simp
  from change_basis_round_trip [OF u p _ _ _ _ s x] f show ?thesis
    by auto
qed

text \<open>
  Claim C3, as stated, fails. Both streams are free of missing values and \<open>X = [2]\<close> is a
  position of the PDB stream, but the UniProt stream repeats the token 5: the forward
  conversion gives \<^verbatim>\<open>["5"]\<close>, and \<^verbatim>\<open>index\<close> finds the first 5 on the way back, giving
  \<^verbatim>\<open>["1"]\<close> instead of \<^verbatim>\<open>["2"]\<close>.
\<close>

theorem change_basis_round_trip_counterexample:
  "convert_to_str int_float_literal ''null'' [PInt 5, PInt 5] = Inr [''5'', ''5''] \<and>
   convert_to_str int_float_literal ''null'' [PInt 1, PInt 2] = Inr [''1'', ''2''] \<and>
   convert_to_str int_float_literal ''null'' [PInt 2] = Inr [''2''] \<and>
   change_basis int_float_literal [PInt 5, PInt 5] [PInt 1, PInt 2] [PInt 2] ''null'' True = Inr [''5''] \<and>
   change_basis int_float_literal [PInt 5, PInt 5] [PInt 1, PInt 2] (map PStr [''5'']) ''null'' False = Inr [''1'']"
  by code_simp

section \<open>Region consolidator\<close>

lemma is_digit_digit_char: "0 \<le> d \<Longrightarrow> d < 10 \<Longrightarrow> is_digit (digit_char d)"
  by (simp add: is_digit_def digit_char_def)

lemma digit_val_digit_char: "0 \<le> d \<Longrightarrow> d < 10 \<Longrightarrow> digit_val (digit_char d) = d"
  by (simp add: digit_val_def digit_char_def)

lemma is_digit_not_special:
  "is_digit c \<Longrightarrow> c \<noteq> CHR ''-'' \<and> c \<noteq> CHR ''+'' \<and> c \<noteq> CHR '','' \<and> c \<noteq> CHR ''_'' \<and> \<not> is_space c"
  by (auto simp: is_digit_def is_space_def)

lemma str_digits_digits:
  "0 \<le> n \<Longrightarrow> str_digits n \<noteq> [] \<and> list_all is_digit (str_digits n)"
proof (induction n rule: str_digits.induct)
  case (1 n)
  show ?case
  proof (cases "n < 10")
    case True
    with "1.prems" show ?thesis
      by (subst str_digits.simps, subst (2) str_digits.simps) (simp add: is_digit_digit_char)
  next
    case False
    then have "0 \<le> n div 10" by simp
    with "1.IH" False have "list_all is_digit (str_digits (n div 10))"
      by simp
    moreover have "is_digit (digit_char (n mod 10))"
      by (intro is_digit_digit_char) simp_all
    ultimately show ?thesis
      using False by (subst str_digits.simps, subst (2) str_digits.simps) simp
  qed
qed

lemma parse_digits_snoc:
  "list_all is_digit ds \<Longrightarrow> is_digit d \<Longrightarrow>
   parse_digits acc (ds @ [d]) = map_option (\<lambda>v. 10 * v + digit_val d) (parse_digits acc ds)"
proof (induction acc ds rule: parse_digits.induct)
  case (1 acc)
  then show ?case by simp
next
  case (2 acc c)
  then show ?case by simp
next
  case (3 acc c e cs)
  then show ?case by simp
qed

lemma parse_nat_snoc:
  "s \<noteq> [] \<Longrightarrow> list_all is_digit s \<Longrightarrow> is_digit d \<Longrightarrow>
   parse_nat (s @ [d]) = map_option (\<lambda>v. 10 * v + digit_val d) (parse_nat s)"
  by (cases s) (simp_all add: parse_nat_def parse_digits_snoc)

lemma parse_nat_str_digits: "0 \<le> n \<Longrightarrow> parse_nat (str_digits n) = Some n"
proof (induction n rule: str_digits.induct)
  case (1 n)
  show ?case
  proof (cases "n < 10")
    case True
    with "1.prems" show ?thesis
      by (subst str_digits.simps) (simp add: parse_nat_def is_digit_digit_char digit_val_digit_char)
  next
    case False
    then have nn: "0 \<le> n div 10" by simp
    with "1.IH" False have ih: "parse_nat (str_digits (n div 10)) = Some (n div 10)"
      by simp
    have d: "is_digit (digit_char (n mod 10))"
      by (intro is_digit_digit_char) simp_all
    have v: "digit_val (digit_char (n mod 10)) = n mod 10"
      by (intro digit_val_digit_char) simp_all
    have "parse_nat (str_digits (n div 10) @ [digit_char (n mod 10)]) = Some (10 * (n div 10) + n mod 10)"
      using str_digits_digits [OF nn] d by (simp add: parse_nat_snoc ih v)
    then show ?thesis
      using False by (subst str_digits.simps) simp
  qed
qed

lemma strip_digits: "list_all is_digit s \<Longrightarrow> strip s = s"
proof -
  assume a: "list_all is_digit s"
  then have ns: "\<forall>c\<in>set s. \<not> is_space c"
    using is_digit_not_special by (auto simp: list_all_iff)
  then have "\<forall>c\<in>set (rev s). \<not> is_space c"
    by simp
  with ns have "dropWhile is_space s = s" "dropWhile is_space (rev s) = rev s"
    by (metis dropWhile_eq_self_iff hd_in_set)+
  then show ?thesis
    by (simp add: strip_def)
qed

lemma py_int_str_int: "0 \<le> n \<Longrightarrow> py_int (str_int n) = Some n"
proof -
  assume n: "0 \<le> n"
  obtain c cs where s: "str_digits n = c # cs"
    using str_digits_digits [OF n] by (cases "str_digits n") auto
  have "is_digit c"
    using str_digits_digits [OF n] s by simp
  then have "c \<noteq> CHR ''-''" "c \<noteq> CHR ''+''"
    using is_digit_not_special by blast+
  moreover have "strip (str_digits n) = c # cs"
    using strip_digits str_digits_digits [OF n] s by simp
  moreover have "parse_nat (c # cs) = Some n"
    using parse_nat_str_digits [OF n] s by simp
  ultimately show ?thesis
    using n by (simp add: py_int_def str_int_def)
qed

lemma split_on_absent: "sep \<notin> set x \<Longrightarrow> split_on sep x = [x]"
  by (induction x) auto

lemma split_on_append: "sep \<notin> set x \<Longrightarrow> split_on sep (x @ sep # rest) = x # split_on sep rest"
  by (induction x) auto

lemma split_on_join:
  "xs \<noteq> [] \<Longrightarrow> \<forall>x\<in>set xs. sep \<notin> set x \<Longrightarrow> split_on sep (join_on sep xs) = xs"
proof (induction sep xs rule: join_on.induct)
  case (1 sep)
  then show ?case by simp
next
  case (2 sep x)
  then show ?case by (simp add: split_on_absent)
next
  case (3 sep x y ys)
  then show ?case by (simp add: split_on_append)
qed

lemma str_int_no_char:
  "0 \<le> n \<Longrightarrow> CHR ''-'' \<notin> set (str_int n) \<and> CHR '','' \<notin> set (str_int n)"
  using str_digits_digits [of n] is_digit_not_special
  by (auto simp: str_int_def list_all_iff)

lemma parse_region_token:
  "0 \<le> fst r \<Longrightarrow> 0 \<le> snd r \<Longrightarrow> parse_region (region_token r) = Inr r"
proof -
  assume a: "0 \<le> fst r" and b: "0 \<le> snd r"
  have "split_on CHR ''-'' (region_token r) = [str_int (fst r), str_int (snd r)]"
    using str_int_no_char [OF a] str_int_no_char [OF b]
    by (simp add: region_token_def split_on_append split_on_absent)
  then show ?thesis
    by (simp add: parse_region_def py_int_str_int a b)
qed

lemma parse_regions_tokens:
  "\<forall>r\<in>set rs. 0 \<le> fst r \<and> 0 \<le> snd r \<Longrightarrow> parse_regions (map region_token rs) = Inr rs"
  by (induction rs) (simp_all add: parse_region_token)

lemma region_token_no_comma:
  "0 \<le> fst r \<Longrightarrow> 0 \<le> snd r \<Longrightarrow> CHR '','' \<notin> set (region_token r)"
  using str_int_no_char [of "fst r"] str_int_no_char [of "snd r"]
  by (simp add: region_token_def)

text \<open>
  Claim C5. \<open>consolidate_regions\<close> parses the comma-separated \<^verbatim>\<open>"start-end"\<close> string into
  the interval tuples, merges them with \<open>merge_overlapping_tuples\<close> and keeps, in order,
  exactly the merged intervals with \<open>end - start + 1 \<ge> min_len\<close>: on the string that prints a
  non-empty list \<open>rs\<close> of intervals with non-negative bounds, the result is the merger's output
  on \<open>rs\<close> filtered by that length test; and on any string, it returns a list exactly when
  parsing and merging succeed, and the list is the merged one filtered. In particular
  \<^verbatim>\<open>consolidate_regions("1-2,5-10,8-25", 5)\<close> is \<open>[(5, 25)]\<close>.
\<close>

theorem consolidate_regions_filters_merged:
  "(consolidate_regions s min_len = Inr out \<longleftrightarrow>
      (\<exists>regions merged. parse_regions (split_on CHR '','' s) = Inr regions \<and>
         merge_overlapping_tuples regions = Inr merged \<and>
         out = filter (\<lambda>x. min_len \<le> snd x - fst x + 1) merged)) \<and>
   (rs \<noteq> [] \<and> (\<forall>r\<in>set rs. 0 \<le> fst r \<and> 0 \<le> snd r) \<longrightarrow>
      (\<exists>merged. merge_overlapping_tuples rs = Inr merged \<and>
         consolidate_regions (region_string rs) min_len =
           Inr (filter (\<lambda>x. min_len \<le> snd x - fst x + 1) merged))) \<and>
   consolidate_regions ''1-2,5-10,8-25'' 5 = Inr [(5, 25)]"
proof -
  have ex: "consolidate_regions ''1-2,5-10,8-25'' 5 = Inr [(5, 25)]"
    by code_simp
  have "\<exists>merged. merge_overlapping_tuples rs = Inr merged \<and>
         consolidate_regions (region_string rs) min_len =
           Inr (filter (\<lambda>x. min_len \<le> snd x - fst x + 1) merged)"
    if ne: "rs \<noteq> []" and pos: "\<forall>r\<in>set rs. 0 \<le> fst r \<and> 0 \<le> snd r"
  proof -
    obtain merged where m: "merge_overlapping_tuples rs = Inr merged"
      using merge_overlapping_tuples_returns by blast
    have "split_on CHR '','' (region_string rs) = map region_token rs"
      unfolding region_string_def using ne pos region_token_no_comma
      by (intro split_on_join) auto
    then have "parse_regions (split_on CHR '','' (region_string rs)) = Inr rs"
      using parse_regions_tokens [OF pos] by simp
    with m show ?thesis
      by (simp add: consolidate_regions_def)
  qed
  moreover have "consolidate_regions s min_len = Inr out \<longleftrightarrow>
      (\<exists>regions merged. parse_regions (split_on CHR '','' s) = Inr regions \<and>
         merge_overlapping_tuples regions = Inr merged \<and>
         out = filter (\<lambda>x. min_len \<le> snd x - fst x + 1) merged)"
    by (auto simp: consolidate_regions_def split: sum.splits)
  ultimately show ?thesis
    using ex by blast
qed

theorem consolidate_regions_filters_merged_witness:
  "region_string [(8, 25), (1, 2), (5, 10)] = ''8-25,1-2,5-10'' \<and>
   merge_overlapping_tuples [(8, 25), (1, 2), (5, 10)] = Inr [(1, 2), (5, 25)] \<and>
   consolidate_regions ''8-25,1-2,5-10'' 5 = Inr [(5, 25)]"
proof -
  have s: "region_string [(8, 25), (1, 2), (5, 10)] = ''8-25,1-2,5-10''"
    by code_simp
  have m: "merge_overlapping_tuples [(8, 25), (1, 2), (5, 10)] = Inr [(1, 2), (5, 25)]"
    by code_simp
  have "\<exists>merged. merge_overlapping_tuples [(8, 25), (1, 2), (5, 10)] = Inr merged \<and>
         consolidate_regions (region_string [(8, 25), (1, 2), (5, 10)]) 5 =
           Inr (filter (\<lambda>x. 5 \<le> snd x - fst x + 1) merged)"
    using consolidate_regions_filters_merged
      [of "[]" 5 "[]" "[(8, 25), (1, 2), (5, 10)]", THEN conjunct2, THEN conjunct1]
    by simp
  with s m show ?thesis by simp
qed

end
